theory Spec2Isabelle
  imports Main "HOL-Library.Sublist"
begin

section \<open>Python strings\<close>

text \<open>
  A Python \<^verbatim>\<open>str\<close> is a sequence of Unicode code points, so a string is a list of
  code points here; \<open>py\<close> turns an ASCII literal into one.
\<close>

type_synonym pystr = "nat list"

definition py :: "string \<Rightarrow> pystr" where
  "py s = map of_char s"

text \<open>
  \<^verbatim>\<open>str.isspace\<close> on one code point, which is what \<^verbatim>\<open>str.strip()\<close> removes at both
  ends: U+0009..U+000D, U+001C..U+0020, U+0085, U+00A0, U+1680, U+2000..U+200A,
  U+2028, U+2029, U+202F, U+205F, U+3000.
\<close>

definition isspace :: "nat \<Rightarrow> bool" where
  "isspace c \<longleftrightarrow>
     (9 \<le> c \<and> c \<le> 13) \<or> (28 \<le> c \<and> c \<le> 32) \<or> c = 133 \<or> c = 160 \<or> c = 5760 \<or>
     (8192 \<le> c \<and> c \<le> 8202) \<or> c = 8232 \<or> c = 8233 \<or> c = 8239 \<or> c = 8287 \<or> c = 12288"

definition strip :: "pystr \<Rightarrow> pystr" where
  "strip s = rev (dropWhile isspace (rev (dropWhile isspace s)))"

text \<open>
  The line boundaries of \<^verbatim>\<open>str.splitlines()\<close>: LF, VT, FF, CR, FS, GS, RS, NEL, LS, PS;
  CR LF counts as one boundary.
\<close>

definition islinebreak :: "nat \<Rightarrow> bool" where
  "islinebreak c \<longleftrightarrow>
     (10 \<le> c \<and> c \<le> 13) \<or> (28 \<le> c \<and> c \<le> 30) \<or> c = 133 \<or> c = 8232 \<or> c = 8233"

definition skip_break :: "pystr \<Rightarrow> pystr" where
  "skip_break rest =
     (case rest of
        [] \<Rightarrow> []
      | c # r \<Rightarrow> (case r of
                   [] \<Rightarrow> []
                 | d # r' \<Rightarrow> if c = 13 \<and> d = 10 then r' else r))"

function splitlines :: "pystr \<Rightarrow> pystr list" where
  "splitlines s =
     (if s = [] then []
      else takeWhile (\<lambda>c. \<not> islinebreak c) s
             # splitlines (skip_break (dropWhile (\<lambda>c. \<not> islinebreak c) s)))"
  by pat_completeness auto

termination splitlines
proof (relation "measure length")
  show "wf (measure length)" by simp
next
  fix s :: pystr
  assume ne: "s \<noteq> []"
  have "length (skip_break (dropWhile (\<lambda>c. \<not> islinebreak c) s))
          \<le> length (dropWhile (\<lambda>c. \<not> islinebreak c) s) - 1"
    by (simp add: skip_break_def split: list.splits)
  also have "\<dots> \<le> length s - 1"
    by (simp add: length_dropWhile_le diff_le_mono)
  also have "\<dots> < length s"
    using ne by (cases s) simp_all
  finally show "(skip_break (dropWhile (\<lambda>c. \<not> islinebreak c) s), s) \<in> measure length"
    by simp
qed

declare splitlines.simps [simp del]

text \<open>The substring test \<^verbatim>\<open>sub in s\<close>.\<close>

fun startswith :: "pystr \<Rightarrow> pystr \<Rightarrow> bool" where
  "startswith s [] = True"
| "startswith [] (p # ps) = False"
| "startswith (c # cs) (p # ps) = (c = p \<and> startswith cs ps)"

fun contains :: "pystr \<Rightarrow> pystr \<Rightarrow> bool" where
  "contains sub [] = (sub = [])"
| "contains sub (c # cs) = (startswith (c # cs) sub \<or> contains sub cs)"

section \<open>The page as the extractor sees it\<close>

text \<open>
  Every call into the browser either returns or raises. \<open>TimeoutError\<close> is Playwright's
  timeout, \<open>Error\<close> any other exception a browser call raises, \<open>IndexError\<close> Python's own.
  All three are instances of \<^verbatim>\<open>Exception\<close>.
\<close>

datatype exn = TimeoutError | Error | IndexError

datatype element = Element (el_inner_text: "exn + pystr")

datatype parent = Parent (p_query_selector: "pystr \<Rightarrow> exn + element option")

text \<open>
  An anchor handle, by what its methods answer: \<^verbatim>\<open>get_attribute("href")\<close>,
  \<^verbatim>\<open>inner_text()\<close>, \<^verbatim>\<open>query_selector(sel)\<close> and
  \<^verbatim>\<open>evaluate_handle("el => el.closest('li, div')").as_element()\<close>.
\<close>

record anchor =
  a_get_attribute :: "exn + pystr option"
  a_inner_text :: "exn + pystr"
  a_query_selector :: "pystr \<Rightarrow> exn + element option"
  a_closest :: "exn + parent option"

text \<open>The page handle, by what \<^verbatim>\<open>query_selector_all("a[href]")\<close> answers.\<close>

record page =
  query_selector_all :: "exn + anchor list"

text \<open>The dict appended to \<^verbatim>\<open>items\<close>; \<open>href\<close> is always a string there.\<close>

record listing =
  title :: "pystr option"
  href :: pystr
  price :: "pystr option"
  location :: "pystr option"

section \<open>extract\_listings\_from\_page\<close>

text \<open>Python's \<^verbatim>\<open>x or y\<close> on two lookups: \<open>y\<close> is only asked when \<open>x\<close> returned \<^verbatim>\<open>None\<close>.\<close>

definition or_else :: "exn + 'a option \<Rightarrow> exn + 'a option \<Rightarrow> exn + 'a option" where
  "or_else x y = (case x of Inl e \<Rightarrow> Inl e | Inr (Some v) \<Rightarrow> Inr (Some v) | Inr None \<Rightarrow> y)"

definition price_selectors :: "pystr list" where
  "price_selectors =
     [py ''.price, ._89yzn, ._2xKfz'',
      py ''span:has-text('' @ [39, 8377, 39] @ py '')'',
      py ''span:has-text('' @ [39] @ py ''INR'' @ [39] @ py '')'']"

definition location_selectors :: "pystr list" where
  "location_selectors =
     [py ''._2FBdJ, .tjgMj, .-K-F'',
      py ''span[data-aut-id='' @ [39] @ py ''itemLocation'' @ [39] @ py '']'']"

text \<open>The text of a found element, inside the \<^verbatim>\<open>try\<close>: a raise leaves the field \<^verbatim>\<open>None\<close>.\<close>

definition text_of_lookup :: "exn + element option \<Rightarrow> pystr option" where
  "text_of_lookup r =
     (case r of
        Inl e \<Rightarrow> None
      | Inr None \<Rightarrow> None
      | Inr (Some el) \<Rightarrow> (case el_inner_text el of Inl e \<Rightarrow> None | Inr t \<Rightarrow> Some (strip t)))"

definition lookup_price :: "anchor \<Rightarrow> pystr option" where
  "lookup_price a =
     text_of_lookup
       (or_else (a_query_selector a (price_selectors ! 0))
          (or_else (a_query_selector a (price_selectors ! 1))
                   (a_query_selector a (price_selectors ! 2))))"

definition lookup_location :: "anchor \<Rightarrow> pystr option" where
  "lookup_location a =
     (case a_closest a of
        Inl e \<Rightarrow> None
      | Inr None \<Rightarrow> None
      | Inr (Some p) \<Rightarrow>
          text_of_lookup
            (or_else (p_query_selector p (location_selectors ! 0))
                     (p_query_selector p (location_selectors ! 1))))"

definition is_listing_href :: "pystr \<Rightarrow> bool" where
  "is_listing_href h \<longleftrightarrow>
     contains (py ''/item'') h \<or> contains (py ''/i/'') h \<or> contains (py ''/items/'') h"

text \<open>\<^verbatim>\<open>text.splitlines()[0] if text else None\<close>\<close>

definition title_of :: "pystr \<Rightarrow> exn + pystr option" where
  "title_of text =
     (if text \<noteq> [] then
        (case splitlines text of [] \<Rightarrow> Inl IndexError | l # ls \<Rightarrow> Inr (Some l))
      else Inr None)"

text \<open>
  One pass of the loop over the anchors: \<open>Inr None\<close> when the anchor is skipped,
  \<open>Inr (Some r)\<close> when \<open>r\<close> is appended, \<open>Inl e\<close> when a call outside the two
  \<^verbatim>\<open>try\<close> blocks raises.
\<close>

definition candidate :: "anchor \<Rightarrow> exn + listing option" where
  "candidate a =
     (case a_get_attribute a of
        Inl e \<Rightarrow> Inl e
      | Inr v \<Rightarrow>
          (let h = (case v of None \<Rightarrow> [] | Some s \<Rightarrow> s) in
           case a_inner_text a of
             Inl e \<Rightarrow> Inl e
           | Inr t \<Rightarrow>
               (let text = strip t in
                if h = [] then Inr None
                else if is_listing_href h then
                  (case title_of text of
                     Inl e \<Rightarrow> Inl e
                   | Inr ti \<Rightarrow>
                       Inr (Some \<lparr>title = ti, href = h,
                                  price = lookup_price a, location = lookup_location a\<rparr>))
                else Inr None)))"

fun collect :: "anchor list \<Rightarrow> listing list \<Rightarrow> exn + listing list" where
  "collect [] items = Inr items"
| "collect (a # as) items =
     (case candidate a of
        Inl e \<Rightarrow> Inl e
      | Inr None \<Rightarrow> collect as items
      | Inr (Some r) \<Rightarrow> collect as (items @ [r]))"

text \<open>The second loop: \<^verbatim>\<open>seen\<close> is the set of hrefs met so far, \<^verbatim>\<open>unique\<close> the list built.\<close>

fun dedup :: "pystr set \<Rightarrow> listing list \<Rightarrow> listing list \<Rightarrow> listing list" where
  "dedup seen unique [] = unique"
| "dedup seen unique (it # items) =
     (let h = href it in
      if h \<in> seen then dedup seen unique items
      else dedup (insert h seen) (unique @ [it]) items)"

definition extract_listings_from_page :: "page \<Rightarrow> exn + listing list" where
  "extract_listings_from_page pg =
     (case query_selector_all pg of
        Inl e \<Rightarrow> Inl e
      | Inr anchors \<Rightarrow>
          (case collect anchors [] of
             Inl e \<Rightarrow> Inl e
           | Inr items \<Rightarrow> Inr (dedup {} [] items)))"

section \<open>The browser as scrape sees it\<close>

text \<open>
  The browser is outside the program, so it is a script of answers: \<open>None\<close> when a
  call returns, \<open>Some e\<close> when it raises \<open>e\<close>. The scroll, the wait and the height
  measurement of the loop are indexed by the iteration, counted from 0; \<open>loaded n\<close> is
  the page handle the extractor is given after \<open>n\<close> scrolls.
\<close>

record browser =
  start :: "exn option"
  launch :: "bool \<Rightarrow> exn option"
  new_context :: "exn option"
  new_page :: "exn option"
  goto :: "pystr \<Rightarrow> exn option"
  wait_idle :: "exn option"
  scroll_by :: "nat \<Rightarrow> exn option"
  wait_idle_loop :: "nat \<Rightarrow> exn option"
  scroll_height :: "nat \<Rightarrow> exn + int"
  loaded :: "nat \<Rightarrow> page"
  close :: "exn option"

text \<open>
  The calls scrape makes, in order, with the timeouts (in milliseconds) it passes.
  \<open>Stop\<close> is the exit of the \<^verbatim>\<open>with sync_playwright()\<close> block.
\<close>

datatype call =
  Launch | NewContext | NewPage | Goto nat | WaitIdle nat | Sleep
  | ScrollBy | ScrollHeight | QuerySelectorAll | Close | Stop

record session =
  calls :: "call list"
  browser_open :: bool
  released :: nat

definition session0 :: session where
  "session0 = \<lparr>calls = [], browser_open = False, released = 0\<rparr>"

definition log :: "call \<Rightarrow> session \<Rightarrow> session" where
  "log c s = s\<lparr>calls := calls s @ [c]\<rparr>"

text \<open>\<^verbatim>\<open>try: ... except PlaywrightTimeoutError: pass\<close>\<close>

definition ignore_timeout :: "exn option \<Rightarrow> exn option" where
  "ignore_timeout r = (if r = Some TimeoutError then None else r)"

text \<open>
  \<^verbatim>\<open>for _ in range(10)\<close>, with \<open>n\<close> the iterations left, \<open>i\<close> the iterations done.
  It returns the number of scrolls made.
\<close>

fun scroll_loop :: "browser \<Rightarrow> nat \<Rightarrow> nat \<Rightarrow> int \<Rightarrow> session \<Rightarrow> (exn + nat) \<times> session" where
  "scroll_loop b 0 i previous_height s = (Inr i, s)"
| "scroll_loop b (Suc n) i previous_height s =
     (let s1 = log ScrollBy s in
      case scroll_by b i of
        Some e \<Rightarrow> (Inl e, s1)
      | None \<Rightarrow>
          (let s2 = log (WaitIdle 5000) (log Sleep s1) in
           case ignore_timeout (wait_idle_loop b i) of
             Some e \<Rightarrow> (Inl e, s2)
           | None \<Rightarrow>
               (let s3 = log ScrollHeight s2 in
                case scroll_height b i of
                  Inl e \<Rightarrow> (Inl e, s3)
                | Inr current_height \<Rightarrow>
                    if current_height = previous_height then (Inr (Suc i), s3)
                    else scroll_loop b n (Suc i) current_height s3)))"

text \<open>
  \<^verbatim>\<open>browser.close()\<close>: a close that returns releases the browser. \<open>browser_open\<close> and
  \<open>released\<close> record what scrape's own calls have done to the browser: the launch opens
  it, a close that returns releases it.
\<close>

definition browser_close :: "browser \<Rightarrow> session \<Rightarrow> exn option \<times> session" where
  "browser_close b s =
     (case close b of
        Some e \<Rightarrow> (Some e, log Close s)
      | None \<Rightarrow> (None, (log Close s)\<lparr>browser_open := False, released := released s + 1\<rparr>))"

text \<open>
  The exit of \<^verbatim>\<open>with sync_playwright() as p\<close>, which runs when the block returns and
  when it raises. What Playwright does there to a browser that is still open is not in
  the source, and is not modelled: the exit is one more call.
\<close>

definition playwright_exit :: "session \<Rightarrow> session" where
  "playwright_exit s = log Stop s"

text \<open>The body of the \<^verbatim>\<open>with\<close> block.\<close>

definition with_body :: "browser \<Rightarrow> pystr \<Rightarrow> bool \<Rightarrow> session \<Rightarrow> (exn + listing list) \<times> session" where
  "with_body b url headless s0 =
     (let s1 = log Launch s0 in
      case launch b headless of
        Some e \<Rightarrow> (Inl e, s1)
      | None \<Rightarrow>
     (let s2 = log NewContext (s1\<lparr>browser_open := True\<rparr>) in
      case new_context b of
        Some e \<Rightarrow> (Inl e, s2)
      | None \<Rightarrow>
     (let s3 = log NewPage s2 in
      case new_page b of
        Some e \<Rightarrow> (Inl e, s3)
      | None \<Rightarrow>
     (let s4 = log (Goto 30000) s3 in
      case goto b url of
        Some e \<Rightarrow> (Inl e, s4)
      | None \<Rightarrow>
     (let s5 = log (WaitIdle 15000) s4 in
      case ignore_timeout (wait_idle b) of
        Some e \<Rightarrow> (Inl e, s5)
      | None \<Rightarrow>
     (case scroll_loop b 10 0 0 (log Sleep s5) of
        (Inl e, s6) \<Rightarrow> (Inl e, s6)
      | (Inr n, s6) \<Rightarrow>
     (let s7 = log QuerySelectorAll s6 in
      case extract_listings_from_page (loaded b n) of
        Inl e \<Rightarrow> (Inl e, s7)
      | Inr results \<Rightarrow>
     (case browser_close b s7 of
        (Some e, s8) \<Rightarrow> (Inl e, s8)
      | (None, s8) \<Rightarrow> (Inr results, s8)))))))))"

definition with_sync_playwright :: "browser \<Rightarrow> pystr \<Rightarrow> bool \<Rightarrow> (exn + listing list) \<times> session" where
  "with_sync_playwright b url headless =
     (case start b of
        Some e \<Rightarrow> (Inl e, session0)
      | None \<Rightarrow>
          (case with_body b url headless session0 of
             (r, s) \<Rightarrow> (r, playwright_exit s)))"

text \<open>The slice \<^verbatim>\<open>xs[:n]\<close>: a negative \<open>n\<close> counts from the end.\<close>

definition slice_to :: "'a list \<Rightarrow> int \<Rightarrow> 'a list" where
  "slice_to xs n =
     (if n < 0 then take (nat (int (length xs) + n)) xs else take (nat n) xs)"

definition scrape :: "browser \<Rightarrow> pystr \<Rightarrow> int \<Rightarrow> bool \<Rightarrow> (exn + listing list) \<times> session" where
  "scrape b url max_items headless =
     (case with_sync_playwright b url headless of
        (Inl e, s) \<Rightarrow> (Inl e, s)
      | (Inr results, s) \<Rightarrow>
          (Inr (if int (length results) > max_items then slice_to results max_items
                else results), s))"

section \<open>save\_results\<close>






















section \<open>Notions used in the statements\<close>

text \<open>The records one pass of the anchor loop appends: one or none.\<close>

definition appended :: "anchor \<Rightarrow> listing list" where
  "appended a = (case candidate a of Inr (Some r) \<Rightarrow> [r] | _ \<Rightarrow> [])"




text \<open>
  The title as the specification words it: the first non-empty line of a text split on
  line breaks.
\<close>

definition first_nonempty_line :: "pystr \<Rightarrow> pystr option" where
  "first_nonempty_line t = find (\<lambda>l. l \<noteq> []) (splitlines t)"

text \<open>
  The steps before the scroll loop all return (a timeout of the first wait counts as
  returning).
\<close>

definition reaches_loop :: "browser \<Rightarrow> pystr \<Rightarrow> bool \<Rightarrow> bool" where
  "reaches_loop b url headless \<longleftrightarrow>
     start b = None \<and> launch b headless = None \<and> new_context b = None \<and> new_page b = None \<and>
     goto b url = None \<and> ignore_timeout (wait_idle b) = None"

text \<open>
  Iteration \<open>i\<close> of the loop gets through its scroll and its wait;
  \<open>height_before b i\<close> is what the loop compares the \<open>i\<close>-th measurement with: 0 in the
  first iteration, the previous measurement afterwards.
\<close>

definition iteration_ok :: "browser \<Rightarrow> nat \<Rightarrow> bool" where
  "iteration_ok b i \<longleftrightarrow> scroll_by b i = None \<and> ignore_timeout (wait_idle_loop b i) = None"

definition height_before :: "browser \<Rightarrow> nat \<Rightarrow> exn + int" where
  "height_before b i = (if i = 0 then Inr 0 else scroll_height b (i - 1))"

text \<open>
  The measured height stabilises after \<open>k\<close> scroll iterations: each of the first \<open>k\<close>
  measurements returns a height other than the one before, and the next measurement
  returns the same height again.
\<close>

definition stabilises_after :: "browser \<Rightarrow> nat \<Rightarrow> bool" where
  "stabilises_after b k \<longleftrightarrow>
     (\<forall>i\<le>k. iteration_ok b i \<and> (\<exists>h. scroll_height b i = Inr h)) \<and>
     (\<forall>i<k. scroll_height b i \<noteq> height_before b i) \<and>
     scroll_height b k = height_before b k"

text \<open>
  Deduplication as the specification words it: of every element the first occurrence
  is kept, in the order of the list.
\<close>

fun first_occurrences :: "'a list \<Rightarrow> 'a list" where
  "first_occurrences [] = []"
| "first_occurrences (x # xs) = x # first_occurrences (filter (\<lambda>y. y \<noteq> x) xs)"

definition scrolls :: "session \<Rightarrow> nat" where
  "scrolls s = count_list (calls s) ScrollBy"

definition measurements :: "session \<Rightarrow> nat" where
  "measurements s = count_list (calls s) ScrollHeight"

































section \<open>Example pages and browsers\<close>

text \<open>An anchor whose price and location lookups all raise.\<close>

definition failing_anchor :: "pystr \<Rightarrow> pystr \<Rightarrow> anchor" where
  "failing_anchor h t =
     \<lparr>a_get_attribute = Inr (Some h), a_inner_text = Inr t,
      a_query_selector = (\<lambda>sel. Inl Error), a_closest = Inl Error\<rparr>"


text \<open>An anchor with a price element and no enclosing block.\<close>

definition priced_anchor :: "pystr \<Rightarrow> pystr \<Rightarrow> pystr \<Rightarrow> anchor" where
  "priced_anchor h t p =
     \<lparr>a_get_attribute = Inr (Some h), a_inner_text = Inr t,
      a_query_selector = (\<lambda>sel. Inr (Some (Element (Inr p)))), a_closest = Inr None\<rparr>"

text \<open>
  A browser where everything returns except that the navigation answers \<open>g\<close> and every
  wait times out; the \<open>i\<close>-th measured height is \<open>hs i\<close> and the page holds \<open>as\<close>.
\<close>

definition scripted_browser :: "exn option \<Rightarrow> (nat \<Rightarrow> int) \<Rightarrow> anchor list \<Rightarrow> browser" where
  "scripted_browser g hs as =
     \<lparr>start = None, launch = (\<lambda>h. None), new_context = None, new_page = None,
      goto = (\<lambda>u. g), wait_idle = Some TimeoutError, scroll_by = (\<lambda>i. None),
      wait_idle_loop = (\<lambda>i. Some TimeoutError), scroll_height = (\<lambda>i. Inr (hs i)),
      loaded = (\<lambda>n. \<lparr>query_selector_all = Inr as\<rparr>), close = None\<rparr>"

text \<open>Heights 900, 900, ...: stable after one iteration.\<close>

definition still_heights :: "nat \<Rightarrow> int" where
  "still_heights i = 900"

text \<open>Heights 1, 2, ..., 9, 9, ...: stable after nine iterations.\<close>

definition climbing_heights :: "nat \<Rightarrow> int" where
  "climbing_heights i = (if i < 9 then int i + 1 else 9)"

definition two_listings :: "anchor list" where
  "two_listings =
     [failing_anchor (py ''/item/1'') (py '' Car''),
      priced_anchor (py ''/item/2'') (py ''Mat'') (py ''500'')]"

definition duplicate_listings :: "anchor list" where
  "duplicate_listings =
     [priced_anchor (py ''/item/1'') (py ''Car'') (py ''500''),
      failing_anchor (py ''/item/1'') (py ''Car'')]"

definition car :: listing where
  "car = \<lparr>title = Some (py ''Car''), href = py ''/item/1'', price = None, location = None\<rparr>"

definition priced_car :: listing where
  "priced_car =
     \<lparr>title = Some (py ''Car''), href = py ''/item/1'', price = Some (py ''500''),
      location = None\<rparr>"

definition mat :: listing where
  "mat =
     \<lparr>title = Some (py ''Mat''), href = py ''/item/2'', price = Some (py ''500''),
      location = None\<rparr>"



text \<open>The sessions the example browsers end in.\<close>

definition two_scroll_session :: session where
  "two_scroll_session =
     \<lparr>calls =
        [Launch, NewContext, NewPage, Goto 30000, WaitIdle 15000, Sleep,
         ScrollBy, Sleep, WaitIdle 5000, ScrollHeight,
         ScrollBy, Sleep, WaitIdle 5000, ScrollHeight,
         QuerySelectorAll, Close, Stop],
      browser_open = False, released = 1\<rparr>"

definition no_page_session :: session where
  "no_page_session =
     \<lparr>calls = [Launch, NewContext, NewPage, Goto 30000, Stop],
      browser_open = True, released = 0\<rparr>"

section \<open>Facts about the strings\<close>

lemma islinebreak_isspace: "islinebreak c \<Longrightarrow> isspace c"
  by (auto simp: islinebreak_def isspace_def)

lemma strip_prefix: "dropWhile isspace t = strip t @ rev (takeWhile isspace (rev (dropWhile isspace t)))"
  unfolding strip_def by (metis rev_append rev_rev_ident takeWhile_dropWhile_id)

lemma strip_hd: "strip t \<noteq> [] \<Longrightarrow> \<not> isspace (hd (strip t))"
proof -
  assume ne: "strip t \<noteq> []"
  then have "hd (dropWhile isspace t) = hd (strip t)"
    using strip_prefix [of t] by (metis hd_append2)
  moreover have "dropWhile isspace t \<noteq> []"
    using ne strip_prefix [of t] by (metis append_is_Nil_conv)
  ultimately show ?thesis
    using hd_dropWhile [of isspace t] by simp
qed

lemma splitlines_Nil: "splitlines [] = []"
  by (simp add: splitlines.simps)

lemma splitlines_nonempty:
  "s \<noteq> [] \<Longrightarrow> \<exists>ls. splitlines s = takeWhile (\<lambda>c. \<not> islinebreak c) s # ls"
  by (subst splitlines.simps) simp

lemma title_of_total:
  "title_of text = Inr (if text = [] then None else Some (takeWhile (\<lambda>c. \<not> islinebreak c) text))"
proof (cases "text = []")
  case True
  then show ?thesis by (simp add: title_of_def)
next
  case False
  then obtain ls where "splitlines text = takeWhile (\<lambda>c. \<not> islinebreak c) text # ls"
    using splitlines_nonempty by blast
  with False show ?thesis by (simp add: title_of_def)
qed

lemma first_line_strip:
  "strip t \<noteq> [] \<Longrightarrow> takeWhile (\<lambda>c. \<not> islinebreak c) (strip t) \<noteq> []"
proof -
  assume ne: "strip t \<noteq> []"
  then obtain c cs where eq: "strip t = c # cs" by (cases "strip t") auto
  with strip_hd [OF ne] have "\<not> isspace c" by simp
  then have "\<not> islinebreak c" using islinebreak_isspace by blast
  with eq show ?thesis by simp
qed

lemma first_nonempty_line_strip:
  "first_nonempty_line (strip t)
     = (if strip t = [] then None else Some (takeWhile (\<lambda>c. \<not> islinebreak c) (strip t)))"
proof (cases "strip t = []")
  case True
  then show ?thesis by (simp add: first_nonempty_line_def splitlines_Nil)
next
  case False
  then obtain ls where "splitlines (strip t) = takeWhile (\<lambda>c. \<not> islinebreak c) (strip t) # ls"
    using splitlines_nonempty by blast
  with False first_line_strip [OF False] show ?thesis
    by (simp add: first_nonempty_line_def)
qed

section \<open>Facts about the anchor loop\<close>




lemma candidate_listing:
  assumes "a_get_attribute a = Inr (Some h)" "h \<noteq> []" "is_listing_href h" "a_inner_text a = Inr t"
  shows "candidate a =
           Inr (Some \<lparr>title = (if strip t = [] then None
                                else Some (takeWhile (\<lambda>c. \<not> islinebreak c) (strip t))),
                       href = h, price = lookup_price a, location = lookup_location a\<rparr>)"
  using assms by (simp add: candidate_def title_of_total)

lemma candidate_SomeD:
  assumes "candidate a = Inr (Some r)"
  shows "a_get_attribute a = Inr (Some (href r)) \<and> href r \<noteq> [] \<and> is_listing_href (href r)"
  using assms
  by (auto simp: candidate_def Let_def title_of_total split: sum.splits option.splits if_splits)

lemma candidate_no_href:
  assumes "a_get_attribute a = Inr None \<or> a_get_attribute a = Inr (Some [])"
  shows "candidate a \<noteq> Inr (Some r)"
  using assms candidate_SomeD [of a r] by auto


lemma collect_Inr:
  "collect as items = Inr out \<Longrightarrow> out = items @ concat (map appended as)"
proof (induction as arbitrary: items)
  case Nil
  then show ?case by simp
next
  case (Cons a as)
  show ?case
  proof (cases "candidate a")
    case (Inl e)
    with Cons.prems show ?thesis by simp
  next
    case (Inr v)
    show ?thesis
    proof (cases v)
      case None
      with Inr Cons.prems have "collect as items = Inr out" by simp
      from Cons.IH [OF this] Inr None show ?thesis by (simp add: appended_def)
    next
      case (Some r)
      with Inr Cons.prems have "collect as (items @ [r]) = Inr out" by simp
      from Cons.IH [OF this] Inr Some show ?thesis by (simp add: appended_def)
    qed
  qed
qed

lemma collect_returns:
  "collect as items = Inr out \<Longrightarrow> a \<in> set as \<Longrightarrow> \<exists>v. candidate a = Inr v"
proof (induction as arbitrary: items)
  case Nil
  then show ?case by simp
next
  case (Cons b as)
  then show ?case
    by (auto split: sum.splits option.splits)
qed

lemma appended_iff: "r \<in> set (appended a) \<longleftrightarrow> candidate a = Inr (Some r)"
  by (auto simp: appended_def split: sum.splits option.splits)

section \<open>Deduplication and the extractor\<close>

lemma dedup_unique: "dedup seen unique items = unique @ dedup seen [] items"
proof (induction items arbitrary: seen unique)
  case Nil
  show ?case by simp
next
  case (Cons it items)
  show ?case
    using Cons.IH [of seen unique] Cons.IH [of "insert (href it) seen" "unique @ [it]"]
      Cons.IH [of "insert (href it) seen" "[it]"]
    by (simp add: Let_def)
qed

lemma dedup_Cons:
  "dedup seen [] (it # items) =
     (if href it \<in> seen then dedup seen [] items
      else it # dedup (insert (href it) seen) [] items)"
  using dedup_unique [of "insert (href it) seen" "[it]" items] by (simp add: Let_def)

lemma set_href_dedup: "href ` set (dedup seen [] items) = href ` set items - seen"
  by (induction items arbitrary: seen) (auto simp: dedup_Cons simp del: dedup.simps(2))

lemma distinct_href_dedup: "distinct (map href (dedup seen [] items))"
proof (induction items arbitrary: seen)
  case Nil
  show ?case by simp
next
  case (Cons it items)
  have "href it \<notin> href ` set (dedup (insert (href it) seen) [] items)"
    by (simp add: set_href_dedup)
  then show ?case
    using Cons.IH by (simp add: dedup_Cons del: dedup.simps(2))
qed

lemma subseq_dedup: "subseq (dedup seen [] items) items"
  by (induction items arbitrary: seen) (auto simp: dedup_Cons simp del: dedup.simps(2))

lemma find_dedup:
  "r \<in> set (dedup seen [] items) \<Longrightarrow> find (\<lambda>x. href x = href r) items = Some r"
proof (induction items arbitrary: seen)
  case Nil
  then show ?case by simp
next
  case (Cons it items)
  show ?case
  proof (cases "href it \<in> seen")
    case True
    with Cons.prems have r: "r \<in> set (dedup seen [] items)"
      by (simp add: dedup_Cons del: dedup.simps(2))
    then have "href r \<in> href ` set items - seen"
      using set_href_dedup [of seen items] by blast
    with True have "href it \<noteq> href r" by auto
    with Cons.IH [OF r] show ?thesis by simp
  next
    case False
    with Cons.prems have "r = it \<or> r \<in> set (dedup (insert (href it) seen) [] items)"
      by (simp add: dedup_Cons del: dedup.simps(2))
    then show ?thesis
    proof
      assume "r = it"
      then show ?thesis by simp
    next
      assume r: "r \<in> set (dedup (insert (href it) seen) [] items)"
      then have "href r \<in> href ` set items - insert (href it) seen"
        using set_href_dedup [of "insert (href it) seen" items] by blast
      then have "href it \<noteq> href r" by auto
      with Cons.IH [OF r] show ?thesis by simp
    qed
  qed
qed

lemma extract_Inr:
  assumes "extract_listings_from_page pg = Inr out"
  shows "\<exists>as. query_selector_all pg = Inr as \<and> collect as [] = Inr (concat (map appended as))
            \<and> out = dedup {} [] (concat (map appended as))"
proof -
  from assms obtain as items where as: "query_selector_all pg = Inr as"
    and items: "collect as [] = Inr items" and out: "out = dedup {} [] items"
    by (auto simp: extract_listings_from_page_def split: sum.splits)
  from collect_Inr [OF items] have "items = concat (map appended as)" by simp
  with as items out show ?thesis by simp
qed

lemmas eval_defs = py_def strip_def isspace_def islinebreak_def skip_break_def splitlines.simps
  or_else_def price_selectors_def location_selectors_def text_of_lookup_def lookup_price_def
  lookup_location_def is_listing_href_def title_of_def candidate_def extract_listings_from_page_def
  failing_anchor_def priced_anchor_def car_def priced_car_def mat_def
  two_listings_def duplicate_listings_def first_nonempty_line_def

lemma candidate_Inr_text: "candidate a = Inr v \<Longrightarrow> \<exists>t. a_inner_text a = Inr t"
  by (auto simp: candidate_def Let_def split: sum.splits)


lemma strip_all_space: "\<forall>c\<in>set t. isspace c \<Longrightarrow> strip t = []"
proof -
  assume "\<forall>c\<in>set t. isspace c"
  then have d: "dropWhile isspace t = []" by (induction t) auto
  show ?thesis unfolding strip_def d by simp
qed

lemma set_dedup: "set (dedup seen [] items) \<subseteq> set items"
  by (induction items arbitrary: seen) (auto simp: dedup_Cons simp del: dedup.simps(2))

lemma remdups_snoc: "remdups (ys @ [x]) = remdups (filter (\<lambda>y. y \<noteq> x) ys) @ [x]"
  by (induction ys) auto

lemma first_occurrences_remdups: "first_occurrences xs = rev (remdups (rev xs))"
proof (induction xs rule: first_occurrences.induct)
  case 1
  show ?case by simp
next
  case (2 x xs)
  have "rev (remdups (rev (x # xs))) = x # rev (remdups (rev (filter (\<lambda>y. y \<noteq> x) xs)))"
    by (simp add: remdups_snoc rev_filter)
  with 2 show ?case by simp
qed

lemma href_dedup_first_occurrences:
  "map href (dedup seen [] items) = first_occurrences (filter (\<lambda>h. h \<notin> seen) (map href items))"
proof (induction items arbitrary: seen)
  case Nil
  show ?case by simp
next
  case (Cons it items)
  have f: "filter (\<lambda>y. y \<noteq> href it) (filter (\<lambda>h. h \<notin> seen) (map href items))
         = filter (\<lambda>h. h \<notin> insert (href it) seen) (map href items)"
    by (auto intro: filter_cong)
  show ?case
    using Cons.IH [of seen] Cons.IH [of "insert (href it) seen"] f
    by (simp add: dedup_Cons del: dedup.simps(2))
qed

lemma dedup_closed_form:
  "dedup {} [] items
     = map (\<lambda>h. the (find (\<lambda>x. href x = h) items)) (first_occurrences (map href items))"
proof -
  have "map (\<lambda>h. the (find (\<lambda>x. href x = h) items)) (map href (dedup {} [] items))
          = map (\<lambda>r. r) (dedup {} [] items)"
    unfolding map_map by (rule map_cong) (simp_all add: find_dedup)
  then show ?thesis
    by (simp add: href_dedup_first_occurrences)
qed

text \<open>
  Claim C1. For every list of candidates the deduplication keeps exactly one record per
  distinct href, namely the first one discovered (the first record of the input with that
  href), in the order of discovery: the hrefs of the result are the first occurrences of
  the hrefs of the input, in the order of the input, and the result is the list of the
  first records with these hrefs; and no two records of the extractor's output share
  an href.
\<close>

theorem dedup_keeps_first_per_href:
  "distinct (map href (dedup {} [] items)) \<and>
   href ` set (dedup {} [] items) = href ` set items \<and>
   (\<forall>r\<in>set (dedup {} [] items). find (\<lambda>x. href x = href r) items = Some r) \<and>
   subseq (dedup {} [] items) items \<and>
   map href (dedup {} [] items) = first_occurrences (map href items) \<and>
   map href (dedup {} [] items) = rev (remdups (rev (map href items))) \<and>
   dedup {} [] items
     = map (\<lambda>h. the (find (\<lambda>x. href x = h) items)) (first_occurrences (map href items)) \<and>
   (extract_listings_from_page pg = Inr out \<longrightarrow> distinct (map href out))"
proof (intro conjI ballI impI)
  show "distinct (map href (dedup {} [] items))"
    by (rule distinct_href_dedup)
  show "href ` set (dedup {} [] items) = href ` set items"
    by (simp add: set_href_dedup)
  show "subseq (dedup {} [] items) items"
    by (rule subseq_dedup)
  show "map href (dedup {} [] items) = first_occurrences (map href items)"
    by (simp add: href_dedup_first_occurrences)
  then show "map href (dedup {} [] items) = rev (remdups (rev (map href items)))"
    by (simp add: first_occurrences_remdups)
  show "dedup {} [] items
     = map (\<lambda>h. the (find (\<lambda>x. href x = h) items)) (first_occurrences (map href items))"
    by (rule dedup_closed_form)
next
  fix r
  assume "r \<in> set (dedup {} [] items)"
  then show "find (\<lambda>x. href x = href r) items = Some r"
    by (rule find_dedup)
next
  assume "extract_listings_from_page pg = Inr out"
  then obtain as where "out = dedup {} [] (concat (map appended as))"
    using extract_Inr by blast
  then show "distinct (map href out)"
    by (simp add: distinct_href_dedup)
qed

theorem dedup_keeps_first_per_href_witness:
  "dedup {} [] [car, mat, priced_car, mat] = [car, mat] \<and>
   distinct (map href (dedup {} [] [car, mat, priced_car, mat])) \<and>
   car \<in> set (dedup {} [] [car, mat, priced_car, mat]) \<and>
   find (\<lambda>x. href x = href car) [car, mat, priced_car, mat] = Some car \<and>
   first_occurrences (map href [car, mat, priced_car, mat]) = [py ''/item/1'', py ''/item/2''] \<and>
   map href (dedup {} [] [car, mat, priced_car, mat]) = [py ''/item/1'', py ''/item/2''] \<and>
   extract_listings_from_page \<lparr>query_selector_all = Inr duplicate_listings\<rparr> = Inr [priced_car] \<and>
   distinct (map href [priced_car])"
proof -
  have d: "dedup {} [] [car, mat, priced_car, mat] = [car, mat]"
    by (simp add: eval_defs)
  have f: "first_occurrences (map href [car, mat, priced_car, mat]) = [py ''/item/1'', py ''/item/2'']"
    by (simp add: eval_defs)
  have e: "extract_listings_from_page \<lparr>query_selector_all = Inr duplicate_listings\<rparr> = Inr [priced_car]"
    by (simp add: eval_defs)
  note t = dedup_keeps_first_per_href
         [of "[car, mat, priced_car, mat]" "\<lparr>query_selector_all = Inr duplicate_listings\<rparr>"
             "[priced_car]"]
  have m: "map href (dedup {} [] [car, mat, priced_car, mat]) = [py ''/item/1'', py ''/item/2'']"
    using t [THEN conjunct2, THEN conjunct2, THEN conjunct2, THEN conjunct2, THEN conjunct1] f
    by (rule trans)
  have c2: "distinct (map href (dedup {} [] [car, mat, priced_car, mat]))"
    using t by (rule conjunct1)
  have c3: "car \<in> set (dedup {} [] [car, mat, priced_car, mat])"
    unfolding d by simp
  have c4: "find (\<lambda>x. href x = href car) [car, mat, priced_car, mat] = Some car"
    using t [THEN conjunct2, THEN conjunct2, THEN conjunct1] c3 by (rule bspec)
  have c8: "distinct (map href [priced_car])"
    using t [THEN conjunct2, THEN conjunct2, THEN conjunct2, THEN conjunct2, THEN conjunct2,
             THEN conjunct2, THEN conjunct2] e
    by (rule mp)
  show ?thesis
    using d c2 c3 c4 f m e c8 by (intro conjI) assumption+
qed

text \<open>
  Claim C6. When the extractor returns, an anchor whose href is missing or empty appends
  no record, every record of the output has a non-empty href and was appended by an anchor
  carrying that href, and every anchor with a non-empty listing href has a record with its
  href in the output, whatever its price and location lookups answer.
\<close>

theorem href_identity_requirement:
  assumes "query_selector_all pg = Inr as" and "extract_listings_from_page pg = Inr out"
  shows "(\<forall>a\<in>set as. a_get_attribute a = Inr None \<or> a_get_attribute a = Inr (Some [])
            \<longrightarrow> appended a = []) \<and>
         (\<forall>r\<in>set out. href r \<noteq> [] \<and>
            (\<exists>a\<in>set as. a_get_attribute a = Inr (Some (href r)) \<and> appended a = [r])) \<and>
         (\<forall>a\<in>set as. \<forall>h. a_get_attribute a = Inr (Some h) \<and> h \<noteq> [] \<and> is_listing_href h
            \<longrightarrow> (\<exists>r\<in>set out. href r = h))"
proof -
  from extract_Inr [OF assms(2)] assms(1)
  have coll: "collect as [] = Inr (concat (map appended as))"
    and out: "out = dedup {} [] (concat (map appended as))"
    by auto
  have hrefs: "href ` set out = href ` set (concat (map appended as))"
    unfolding out by (simp add: set_href_dedup)
  have one: "\<forall>a\<in>set as. a_get_attribute a = Inr None \<or> a_get_attribute a = Inr (Some [])
            \<longrightarrow> appended a = []"
  proof (intro ballI impI)
    fix a :: anchor
    assume "a_get_attribute a = Inr None \<or> a_get_attribute a = Inr (Some [])"
    then have "\<And>r. candidate a \<noteq> Inr (Some r)"
      by (rule candidate_no_href)
    then show "appended a = []"
      by (auto simp: appended_def split: sum.splits option.splits)
  qed
  have two: "\<forall>r\<in>set out. href r \<noteq> [] \<and>
            (\<exists>a\<in>set as. a_get_attribute a = Inr (Some (href r)) \<and> appended a = [r])"
  proof
    fix r
    assume "r \<in> set out"
    then have "r \<in> set (concat (map appended as))"
      unfolding out using set_dedup [of "{}" "concat (map appended as)"] by blast
    then obtain a where a: "a \<in> set as" and r: "r \<in> set (appended a)"
      by auto
    from r have c: "candidate a = Inr (Some r)"
      by (simp add: appended_iff)
    then have "appended a = [r]"
      by (simp add: appended_def)
    with candidate_SomeD [OF c] a
    show "href r \<noteq> [] \<and> (\<exists>a\<in>set as. a_get_attribute a = Inr (Some (href r)) \<and> appended a = [r])"
      by blast
  qed
  have three: "\<forall>a\<in>set as. \<forall>h. a_get_attribute a = Inr (Some h) \<and> h \<noteq> [] \<and> is_listing_href h
            \<longrightarrow> (\<exists>r\<in>set out. href r = h)"
  proof (intro ballI allI impI)
    fix a :: anchor and h
    assume a: "a \<in> set as"
      and h: "a_get_attribute a = Inr (Some h) \<and> h \<noteq> [] \<and> is_listing_href h"
    from collect_returns [OF coll a] obtain v where "candidate a = Inr v" by blast
    then obtain t where "a_inner_text a = Inr t"
      using candidate_Inr_text by blast
    with h obtain r where c: "candidate a = Inr (Some r)" and "href r = h"
      using candidate_listing [of a h t] by simp
    then have "r \<in> set (appended a)" by (simp add: appended_iff)
    with a have "h \<in> href ` set (concat (map appended as))"
      using \<open>href r = h\<close> by force
    then have "h \<in> href ` set out" by (simp add: hrefs)
    then show "\<exists>r\<in>set out. href r = h" by auto
  qed
  from one two three show ?thesis by blast
qed

theorem href_identity_requirement_witness:
  "query_selector_all \<lparr>query_selector_all = Inr (failing_anchor [] (py ''Car'') # two_listings)\<rparr>
     = Inr (failing_anchor [] (py ''Car'') # two_listings) \<and>
   extract_listings_from_page \<lparr>query_selector_all = Inr (failing_anchor [] (py ''Car'') # two_listings)\<rparr>
     = Inr [car, mat] \<and>
   appended (failing_anchor [] (py ''Car'')) = [] \<and>
   href car \<noteq> [] \<and>
   a_get_attribute (failing_anchor (py ''/item/1'') (py '' Car'')) = Inr (Some (href car)) \<and>
   appended (failing_anchor (py ''/item/1'') (py '' Car'')) = [car] \<and>
   is_listing_href (py ''/item/1'') \<and>
   (\<exists>r\<in>set [car, mat]. href r = py ''/item/1'')"
proof -
  have q: "query_selector_all \<lparr>query_selector_all = Inr (failing_anchor [] (py ''Car'') # two_listings)\<rparr>
     = Inr (failing_anchor [] (py ''Car'') # two_listings)"
    by simp
  have e: "extract_listings_from_page \<lparr>query_selector_all = Inr (failing_anchor [] (py ''Car'') # two_listings)\<rparr>
     = Inr [car, mat]"
    by (simp add: eval_defs)
  have a: "appended (failing_anchor (py ''/item/1'') (py '' Car'')) = [car]"
    by (simp add: appended_def eval_defs)
  have h: "is_listing_href (py ''/item/1'')"
    by (simp add: eval_defs)
  from href_identity_requirement [OF q e] a h show ?thesis
    using q e by (simp add: two_listings_def failing_anchor_def car_def py_def)
qed




text \<open>
  As stated, C7 fails on text that starts with whitespace: the first non-empty line of
  the text is " Car", the title is "Car".
\<close>

theorem title_leading_space_counterexample:
  "a_inner_text (failing_anchor (py ''/item/1'') (py '' Car'')) = Inr (py '' Car'') \<and>
   candidate (failing_anchor (py ''/item/1'') (py '' Car'')) = Inr (Some car) \<and>
   title car = Some (py ''Car'') \<and>
   first_nonempty_line (py '' Car'') = Some (py '' Car'') \<and>
   title car \<noteq> first_nonempty_line (py '' Car'')"
  by (simp add: eval_defs)

text \<open>
  Claim C7, amended. For a qualifying anchor whose text can be read, the record is built
  and its title is the first non-empty line of the text stripped of leading and trailing
  whitespace, which is the first line of the stripped text; a text of whitespace only
  (or empty) gives the title None.
\<close>

theorem title_first_line_of_stripped_text:
  assumes "a_get_attribute a = Inr (Some h)" and "h \<noteq> []" and "is_listing_href h"
    and "a_inner_text a = Inr t"
  shows "\<exists>r. candidate a = Inr (Some r) \<and>
           title r = first_nonempty_line (strip t) \<and>
           (strip t \<noteq> [] \<longrightarrow>
              title r = Some (takeWhile (\<lambda>c. \<not> islinebreak c) (strip t)) \<and>
              takeWhile (\<lambda>c. \<not> islinebreak c) (strip t) \<noteq> []) \<and>
           ((\<forall>c\<in>set t. isspace c) \<longrightarrow> title r = None)"
proof -
  let ?ti = "if strip t = [] then None else Some (takeWhile (\<lambda>c. \<not> islinebreak c) (strip t))"
  let ?r = "\<lparr>title = ?ti, href = h, price = lookup_price a, location = lookup_location a\<rparr>"
  have c: "candidate a = Inr (Some ?r)"
    using assms by (rule candidate_listing)
  have t1: "title ?r = first_nonempty_line (strip t)"
    by (simp add: first_nonempty_line_strip)
  have t2: "strip t \<noteq> [] \<longrightarrow>
              title ?r = Some (takeWhile (\<lambda>c. \<not> islinebreak c) (strip t)) \<and>
              takeWhile (\<lambda>c. \<not> islinebreak c) (strip t) \<noteq> []"
    using first_line_strip [of t] by simp
  have t3: "(\<forall>c\<in>set t. isspace c) \<longrightarrow> title ?r = None"
    using strip_all_space [of t] by simp
  from c t1 t2 t3 show ?thesis by blast
qed

theorem title_first_line_of_stripped_text_witness:
  "a_get_attribute (failing_anchor (py ''/item/1'') ([32, 10] @ py ''Car '' @ [10] @ py ''500 ''))
     = Inr (Some (py ''/item/1'')) \<and>
   py ''/item/1'' \<noteq> [] \<and> is_listing_href (py ''/item/1'') \<and>
   strip ([32, 10] @ py ''Car '' @ [10] @ py ''500 '') = py ''Car '' @ [10] @ py ''500'' \<and>
   (\<exists>r. candidate (failing_anchor (py ''/item/1'') ([32, 10] @ py ''Car '' @ [10] @ py ''500 ''))
           = Inr (Some r) \<and> title r = Some (py ''Car ''))"
proof -
  let ?t = "[32, 10] @ py ''Car '' @ [10] @ py ''500 ''"
  let ?a = "failing_anchor (py ''/item/1'') ?t"
  have g: "a_get_attribute ?a = Inr (Some (py ''/item/1''))"
    by (simp add: failing_anchor_def)
  have n: "py ''/item/1'' \<noteq> []"
    by (simp add: py_def)
  have l: "is_listing_href (py ''/item/1'')"
    by (simp add: eval_defs)
  have i: "a_inner_text ?a = Inr ?t"
    by (simp add: failing_anchor_def)
  have s: "strip ?t = py ''Car '' @ [10] @ py ''500''"
    by (simp add: eval_defs)
  have f: "takeWhile (\<lambda>c. \<not> islinebreak c) (py ''Car '' @ [10] @ py ''500'') = py ''Car ''"
    by (simp add: eval_defs)
  from title_first_line_of_stripped_text [OF g n l i] show ?thesis
    using g n l s f by auto
qed

section \<open>The scroll loop and scrape\<close>

lemma scroll_loop_numeral:
  "scroll_loop b (numeral k) i previous_height s =
     (let s1 = log ScrollBy s in
      case scroll_by b i of
        Some e \<Rightarrow> (Inl e, s1)
      | None \<Rightarrow>
          (let s2 = log (WaitIdle 5000) (log Sleep s1) in
           case ignore_timeout (wait_idle_loop b i) of
             Some e \<Rightarrow> (Inl e, s2)
           | None \<Rightarrow>
               (let s3 = log ScrollHeight s2 in
                case scroll_height b i of
                  Inl e \<Rightarrow> (Inl e, s3)
                | Inr current_height \<Rightarrow>
                    if current_height = previous_height then (Inr (Suc i), s3)
                    else scroll_loop b (pred_numeral k) (Suc i) current_height s3)))"
  by (simp only: numeral_eq_Suc scroll_loop.simps)

lemma scroll_loop_frame:
  "\<exists>cs. snd (scroll_loop b n i p s) = s\<lparr>calls := calls s @ cs\<rparr> \<and>
        count_list cs ScrollBy \<le> n \<and> count_list cs ScrollHeight \<le> n \<and>
        (fst (scroll_loop b n i p s) \<in> range Inl \<or> (\<exists>m\<le>i + n. fst (scroll_loop b n i p s) = Inr m))"
proof (induction n arbitrary: i p s)
  case 0
  have "snd (scroll_loop b 0 i p s) = s\<lparr>calls := calls s @ []\<rparr>" by simp
  then show ?case by (intro exI [of _ "[]"]) simp
next
  case (Suc n)
  show ?case
  proof (cases "scroll_by b i")
    case (Some e)
    then show ?thesis
      by (intro exI [of _ "[ScrollBy]"]) (simp add: log_def)
  next
    case None
    note sb = this
    show ?thesis
    proof (cases "ignore_timeout (wait_idle_loop b i)")
      case (Some e)
      with sb show ?thesis
        by (intro exI [of _ "[ScrollBy, Sleep, WaitIdle 5000]"]) (simp add: log_def)
    next
      case None
      note wt = this
      show ?thesis
      proof (cases "scroll_height b i")
        case (Inl e)
        with sb wt show ?thesis
          by (intro exI [of _ "[ScrollBy, Sleep, WaitIdle 5000, ScrollHeight]"]) (simp add: log_def)
      next
        case (Inr h)
        show ?thesis
        proof (cases "h = p")
          case True
          with sb wt Inr show ?thesis
            by (intro exI [of _ "[ScrollBy, Sleep, WaitIdle 5000, ScrollHeight]"]) (simp add: log_def)
        next
          case False
          let ?s3 = "s\<lparr>calls := calls s @ [ScrollBy, Sleep, WaitIdle 5000, ScrollHeight]\<rparr>"
          have step: "scroll_loop b (Suc n) i p s = scroll_loop b n (Suc i) h ?s3"
            using sb wt Inr False by (simp add: log_def)
          from Suc.IH [of "Suc i" h ?s3] obtain cs where
            s: "snd (scroll_loop b n (Suc i) h ?s3) = ?s3\<lparr>calls := calls ?s3 @ cs\<rparr>"
            and c1: "count_list cs ScrollBy \<le> n" and c2: "count_list cs ScrollHeight \<le> n"
            and r: "fst (scroll_loop b n (Suc i) h ?s3) \<in> range Inl \<or>
                    (\<exists>m\<le>Suc i + n. fst (scroll_loop b n (Suc i) h ?s3) = Inr m)"
            by blast
          show ?thesis
            unfolding step
            using s c1 c2 r
            by (intro exI [of _ "[ScrollBy, Sleep, WaitIdle 5000, ScrollHeight] @ cs"]) simp
        qed
      qed
    qed
  qed
qed


lemma scroll_loop_session:
  assumes "scroll_loop b n i p s = (r, s')"
  shows "browser_open s' = browser_open s \<and> released s' = released s \<and>
         scrolls s' \<le> scrolls s + n \<and> measurements s' \<le> measurements s + n \<and>
         (\<forall>m. r = Inr m \<longrightarrow> m \<le> i + n)"
proof -
  from scroll_loop_frame [of b n i p s] assms obtain cs where
    "s' = s\<lparr>calls := calls s @ cs\<rparr>" "count_list cs ScrollBy \<le> n" "count_list cs ScrollHeight \<le> n"
    "r \<in> range Inl \<or> (\<exists>m\<le>i + n. r = Inr m)"
    by auto
  then show ?thesis
    by (auto simp: scrolls_def measurements_def)
qed

lemma scroll_loop_stabilises:
  assumes "\<forall>j. i \<le> j \<and> j \<le> k \<longrightarrow> iteration_ok b j \<and> (\<exists>h. scroll_height b j = Inr h)"
    and "\<forall>j. i \<le> j \<and> j < k \<longrightarrow> scroll_height b j \<noteq> (if j = i then Inr p else scroll_height b (j - 1))"
    and "scroll_height b k = (if k = i then Inr p else scroll_height b (k - 1))"
    and "i \<le> k" and "k - i < n"
  shows "\<exists>cs. scroll_loop b n i p s = (Inr (Suc k), s\<lparr>calls := calls s @ cs\<rparr>) \<and>
          count_list cs ScrollBy = Suc k - i \<and> count_list cs ScrollHeight = Suc k - i"
  using assms
proof (induction n arbitrary: i p s)
  case 0
  then show ?case by simp
next
  case (Suc n)
  from Suc.prems(1,4) have ok: "iteration_ok b i" and "\<exists>h. scroll_height b i = Inr h"
    by auto
  then obtain h where h: "scroll_height b i = Inr h" by blast
  let ?s3 = "s\<lparr>calls := calls s @ [ScrollBy, Sleep, WaitIdle 5000, ScrollHeight]\<rparr>"
  show ?case
  proof (cases "i = k")
    case True
    with Suc.prems(3) h have "h = p" by simp
    with ok h True show ?thesis
      by (intro exI [of _ "[ScrollBy, Sleep, WaitIdle 5000, ScrollHeight]"])
         (simp add: iteration_ok_def log_def)
  next
    case False
    with Suc.prems(4) have lt: "i < k" by simp
    with Suc.prems(2) h have ne: "h \<noteq> p" by auto
    have step: "scroll_loop b (Suc n) i p s = scroll_loop b n (Suc i) h ?s3"
      using ok h ne by (simp add: iteration_ok_def log_def)
    have a1: "\<forall>j. Suc i \<le> j \<and> j \<le> k \<longrightarrow> iteration_ok b j \<and> (\<exists>h. scroll_height b j = Inr h)"
      using Suc.prems(1) by auto
    have a2: "\<forall>j. Suc i \<le> j \<and> j < k \<longrightarrow>
                scroll_height b j \<noteq> (if j = Suc i then Inr h else scroll_height b (j - 1))"
    proof (intro allI impI)
      fix j
      assume j: "Suc i \<le> j \<and> j < k"
      then have "i \<le> j \<and> j < k" and "j \<noteq> i" by auto
      with Suc.prems(2) [rule_format, of j]
      have "scroll_height b j \<noteq> scroll_height b (j - 1)"
        by simp
      then show "scroll_height b j \<noteq> (if j = Suc i then Inr h else scroll_height b (j - 1))"
        using h by auto
    qed
    have a3: "scroll_height b k = (if k = Suc i then Inr h else scroll_height b (k - 1))"
      using Suc.prems(3) False h by auto
    have a4: "Suc i \<le> k" using lt by simp
    have a5: "k - Suc i < n" using Suc.prems(5) lt by arith
    from Suc.IH [OF a1 a2 a3 a4 a5, of ?s3] obtain cs where
      r: "scroll_loop b n (Suc i) h ?s3 = (Inr (Suc k), ?s3\<lparr>calls := calls ?s3 @ cs\<rparr>)"
      and c1: "count_list cs ScrollBy = Suc k - Suc i"
      and c2: "count_list cs ScrollHeight = Suc k - Suc i"
      by blast
    show ?thesis
      unfolding step
      using r c1 c2 lt
      by (intro exI [of _ "[ScrollBy, Sleep, WaitIdle 5000, ScrollHeight] @ cs"]) simp
  qed
qed

lemma scroll_loop_timeouts:
  "scroll_loop (b\<lparr>wait_idle := w, wait_idle_loop := \<lambda>i. if t i then Some TimeoutError else None\<rparr>) n i p s
     = scroll_loop (b\<lparr>wait_idle := w', wait_idle_loop := \<lambda>i. None\<rparr>) n i p s"
  by (induction n arbitrary: i p s)
     (simp_all add: ignore_timeout_def Let_def split: option.splits sum.splits)

lemma scrolls_simps:
  "scrolls (log c s) = scrolls s + (if c = ScrollBy then 1 else 0)"
  "scrolls (s\<lparr>browser_open := bo\<rparr>) = scrolls s"
  "scrolls (s\<lparr>released := re\<rparr>) = scrolls s"
  "scrolls session0 = 0"
  "scrolls (playwright_exit s) = scrolls s"
  by (simp_all add: scrolls_def log_def session0_def playwright_exit_def)

lemma measurements_simps:
  "measurements (log c s) = measurements s + (if c = ScrollHeight then 1 else 0)"
  "measurements (s\<lparr>browser_open := bo\<rparr>) = measurements s"
  "measurements (s\<lparr>released := re\<rparr>) = measurements s"
  "measurements session0 = 0"
  "measurements (playwright_exit s) = measurements s"
  by (simp_all add: measurements_def log_def session0_def playwright_exit_def)

lemma session_log_simps:
  "browser_open (log c s) = browser_open s"
  "released (log c s) = released s"
  "browser_open session0 = False"
  "released session0 = 0"
  by (simp_all add: log_def session0_def)

lemma with_body_outcome:
  assumes "with_body b url headless session0 = (r, s)"
  shows "scrolls s \<le> 10 \<and> measurements s \<le> 10 \<and>
         (launch b headless = None \<longrightarrow>
            ((\<exists>e. r = Inl e) \<and> browser_open s \<and> released s = 0) \<or>
            ((\<exists>out. r = Inr out) \<and> \<not> browser_open s \<and> released s = 1)) \<and>
         (\<forall>results. r = Inr results \<longrightarrow>
            (\<exists>n\<le>10. extract_listings_from_page (loaded b n) = Inr results))"
proof -
  note defs = with_body_def Let_def browser_close_def scrolls_simps measurements_simps
    session_log_simps
  let ?s = "log Sleep (log (WaitIdle 15000) (log (Goto 30000) (log NewPage (log NewContext
              ((log Launch session0)\<lparr>browser_open := True\<rparr>)))))"
  show ?thesis
  proof (cases "launch b headless")
    case (Some e)
    with assms show ?thesis by (auto simp: defs)
  next
    case l: None
    show ?thesis
    proof (cases "new_context b")
      case (Some e)
      with assms l show ?thesis by (auto simp: defs)
    next
      case nc: None
      show ?thesis
      proof (cases "new_page b")
        case (Some e)
        with assms l nc show ?thesis by (auto simp: defs)
      next
        case np: None
        show ?thesis
        proof (cases "goto b url")
          case (Some e)
          with assms l nc np show ?thesis by (auto simp: defs)
        next
          case g: None
          show ?thesis
          proof (cases "ignore_timeout (wait_idle b)")
            case (Some e)
            with assms l nc np g show ?thesis by (auto simp: defs)
          next
            case w: None
            obtain r0 s6 where loop: "scroll_loop b 10 0 0 ?s = (r0, s6)"
              by (cases "scroll_loop b 10 0 0 ?s") auto
            from scroll_loop_session [OF loop]
            have s6: "browser_open s6" "released s6 = 0" "scrolls s6 \<le> 10" "measurements s6 \<le> 10"
              and m: "\<forall>m. r0 = Inr m \<longrightarrow> m \<le> 10"
              by (simp_all add: scrolls_simps measurements_simps session_log_simps)
            have body: "with_body b url headless session0 =
                (case r0 of
                   Inl e \<Rightarrow> (Inl e, s6)
                 | Inr n \<Rightarrow>
                     (case extract_listings_from_page (loaded b n) of
                        Inl e \<Rightarrow> (Inl e, log QuerySelectorAll s6)
                      | Inr results \<Rightarrow>
                          (case browser_close b (log QuerySelectorAll s6) of
                             (Some e, s8) \<Rightarrow> (Inl e, s8)
                           | (None, s8) \<Rightarrow> (Inr results, s8))))"
              using l nc np g w loop by (cases r0) (simp_all add: with_body_def Let_def)
            show ?thesis
            proof (cases r0)
              case (Inl e)
              with body have "with_body b url headless session0 = (Inl e, s6)" by simp
              with assms have "r = Inl e" "s = s6" by simp_all
              with s6 show ?thesis by simp
            next
              case n: (Inr n)
              with m have n10: "n \<le> 10" by simp
              let ?s7 = "log QuerySelectorAll s6"
              have s7: "browser_open ?s7" "released ?s7 = 0" "scrolls ?s7 \<le> 10"
                "measurements ?s7 \<le> 10"
                using s6 by (simp_all add: scrolls_simps measurements_simps session_log_simps)
              show ?thesis
              proof (cases "extract_listings_from_page (loaded b n)")
                case (Inl e)
                with body n have "with_body b url headless session0 = (Inl e, ?s7)" by simp
                with assms have "r = Inl e" "s = ?s7" by simp_all
                with s7 show ?thesis by simp
              next
                case ex: (Inr results)
                show ?thesis
                proof (cases "close b")
                  case (Some e)
                  with body n ex have "with_body b url headless session0 = (Inl e, log Close ?s7)"
                    by (simp add: browser_close_def)
                  with assms have "r = Inl e" "s = log Close ?s7" by simp_all
                  with s7 show ?thesis
                    by (simp add: scrolls_simps measurements_simps session_log_simps)
                next
                  case None
                  with body n ex have "with_body b url headless session0 =
                      (Inr results, (log Close ?s7)\<lparr>browser_open := False, released := released ?s7 + 1\<rparr>)"
                    by (simp add: browser_close_def)
                  with assms have "r = Inr results"
                    "s = (log Close ?s7)\<lparr>browser_open := False, released := released ?s7 + 1\<rparr>"
                    by simp_all
                  with s7 n10 ex show ?thesis
                    by (auto simp: scrolls_simps measurements_simps session_log_simps)
                qed
              qed
            qed
          qed
        qed
      qed
    qed
  qed
qed

lemma with_body_Inr:
  assumes "with_body b url headless session0 = (Inr results, s)"
  shows "\<exists>n\<le>10. extract_listings_from_page (loaded b n) = Inr results"
  using with_body_outcome [OF assms] by blast

lemma with_sync_playwright_Inr:
  assumes "with_sync_playwright b url headless = (Inr results, s)"
  shows "\<exists>n\<le>10. extract_listings_from_page (loaded b n) = Inr results"
  using assms with_body_Inr [of b url headless results]
  by (auto simp: with_sync_playwright_def split: option.splits prod.splits)

lemma with_body_stabilised:
  assumes "launch b headless = None" "new_context b = None" "new_page b = None"
    "goto b url = None" "ignore_timeout (wait_idle b) = None"
    and "stabilises_after b k" and "k < 10"
  shows "scrolls (snd (with_body b url headless session0)) = Suc k \<and>
         measurements (snd (with_body b url headless session0)) = Suc k"
proof -
  let ?s = "log Sleep (log (WaitIdle 15000) (log (Goto 30000) (log NewPage (log NewContext
              ((log Launch session0)\<lparr>browser_open := True\<rparr>)))))"
  from assms(6) have a1: "\<forall>j. 0 \<le> j \<and> j \<le> k \<longrightarrow> iteration_ok b j \<and> (\<exists>h. scroll_height b j = Inr h)"
    and a2: "\<forall>j. 0 \<le> j \<and> j < k \<longrightarrow> scroll_height b j \<noteq> (if j = 0 then Inr 0 else scroll_height b (j - 1))"
    and a3: "scroll_height b k = (if k = 0 then Inr 0 else scroll_height b (k - 1))"
    by (simp_all add: stabilises_after_def height_before_def)
  have a5: "k - 0 < 10" using assms(7) by simp
  from scroll_loop_stabilises [OF a1 a2 a3 _ a5, of ?s] obtain cs where
    loop: "scroll_loop b 10 0 0 ?s = (Inr (Suc k), ?s\<lparr>calls := calls ?s @ cs\<rparr>)"
    and c1: "count_list cs ScrollBy = Suc k" and c2: "count_list cs ScrollHeight = Suc k"
    by auto
  have s0: "scrolls (?s\<lparr>calls := calls ?s @ cs\<rparr>) = Suc k"
    "measurements (?s\<lparr>calls := calls ?s @ cs\<rparr>) = Suc k"
    using c1 c2 by (simp_all add: scrolls_def measurements_def log_def session0_def)
  show ?thesis
    using assms(1-5) s0
    by (simp add: with_body_def Let_def loop browser_close_def scrolls_simps measurements_simps
             split: option.splits sum.splits)
qed

lemma with_body_timeouts:
  "with_body (b\<lparr>wait_idle := (if t0 then Some TimeoutError else None),
                 wait_idle_loop := (\<lambda>i. if t i then Some TimeoutError else None)\<rparr>) url headless s
     = with_body (b\<lparr>wait_idle := None, wait_idle_loop := (\<lambda>i. None)\<rparr>) url headless s"
  by (cases t0)
     (simp_all add: with_body_def ignore_timeout_def scroll_loop_timeouts [where w' = None]
        browser_close_def cong: option.case_cong sum.case_cong)

lemmas run_defs = session0_def log_def ignore_timeout_def browser_close_def playwright_exit_def
  with_body_def with_sync_playwright_def slice_to_def scrape_def scripted_browser_def
  still_heights_def climbing_heights_def scroll_loop_numeral two_scroll_session_def
  no_page_session_def

lemma snd_scrape: "snd (scrape b url N headless) = snd (with_sync_playwright b url headless)"
  by (simp add: scrape_def split: prod.splits sum.splits)

lemma still_run:
  "with_sync_playwright (scripted_browser None still_heights two_listings) (py ''u'') True
     = (Inr [car, mat], two_scroll_session)"
  by (simp add: run_defs eval_defs)

text \<open>
  As stated, C2 fails for a negative max\_items: with two records and max\_items = -1 the
  result has one record, and min(-1, 2) is not a length.
\<close>

theorem scrape_cap_negative_counterexample:
  "extract_listings_from_page (loaded (scripted_browser None still_heights two_listings) 2)
     = Inr [car, mat] \<and>
   fst (scrape (scripted_browser None still_heights two_listings) (py ''u'') (- 1) True)
     = Inr [car] \<and>
   int (length [car]) \<noteq> min (- 1) (int (length [car, mat]))"
  by (simp add: run_defs eval_defs)

text \<open>
  Claim C2, amended. For every max\_items N that is not negative, scrape returns the first
  N records of the deduplicated list the extractor produced (all of them when there are
  fewer), so the length of the result is min(N, D), where D is the number of records
  of that list, whose hrefs are pairwise distinct.
\<close>

theorem scrape_cap:
  assumes "with_sync_playwright b url headless = (Inr results, s)" and "0 \<le> N"
  shows "scrape b url N headless = (Inr (take (nat N) results), s) \<and>
         int (length (take (nat N) results)) = min N (int (length results)) \<and>
         distinct (map href results) \<and>
         (\<exists>n\<le>10. extract_listings_from_page (loaded b n) = Inr results)"
proof -
  from with_sync_playwright_Inr [OF assms(1)] obtain n where
    n: "n \<le> 10" and ex: "extract_listings_from_page (loaded b n) = Inr results"
    by blast
  from extract_Inr [OF ex] have d: "distinct (map href results)"
    by (auto simp: distinct_href_dedup)
  have "scrape b url N headless = (Inr (take (nat N) results), s)"
    using assms by (simp add: scrape_def slice_to_def)
  moreover have "int (length (take (nat N) results)) = min N (int (length results))"
    using assms(2) by simp
  ultimately show ?thesis using d n ex by blast
qed

theorem scrape_cap_witness:
  "with_sync_playwright (scripted_browser None still_heights two_listings) (py ''u'') True
     = (Inr [car, mat], two_scroll_session) \<and> (0 :: int) \<le> 1 \<and>
   scrape (scripted_browser None still_heights two_listings) (py ''u'') 1 True
     = (Inr [car], two_scroll_session) \<and>
   int (length [car]) = min 1 (int (length [car, mat]))"
proof -
  have z: "(0 :: int) \<le> 1" by simp
  from scrape_cap [OF still_run z] show ?thesis
    using still_run by simp
qed

text \<open>
  Claim C10. With max\_items = 0 scrape returns the empty list; with max\_items = -j for
  j > 0 it returns the deduplicated list without its last j records, of length
  max(0, D - j), which is not min(max\_items, D).
\<close>

theorem scrape_cap_nonpositive:
  assumes "with_sync_playwright b url headless = (Inr results, s)"
  shows "scrape b url 0 headless = (Inr [], s) \<and>
         (0 < j \<longrightarrow>
            scrape b url (- int j) headless = (Inr (take (length results - j) results), s) \<and>
            int (length (take (length results - j) results))
              = max 0 (int (length results) - int j) \<and>
            int (length (take (length results - j) results))
              \<noteq> min (- int j) (int (length results)))"
proof (intro conjI impI)
  show "scrape b url 0 headless = (Inr [], s)"
    using assms by (simp add: scrape_def slice_to_def)
next
  assume j: "0 < j"
  have "nat (int (length results) + - int j) = length results - j"
    by simp
  with j show "scrape b url (- int j) headless = (Inr (take (length results - j) results), s)"
    using assms by (simp add: scrape_def slice_to_def)
  show "int (length (take (length results - j) results)) = max 0 (int (length results) - int j)"
    by simp
  show "int (length (take (length results - j) results)) \<noteq> min (- int j) (int (length results))"
    using j by simp
qed

theorem scrape_cap_nonpositive_witness:
  "with_sync_playwright (scripted_browser None still_heights two_listings) (py ''u'') True
     = (Inr [car, mat], two_scroll_session) \<and>
   scrape (scripted_browser None still_heights two_listings) (py ''u'') 0 True
     = (Inr [], two_scroll_session) \<and> (0 :: nat) < 1 \<and>
   scrape (scripted_browser None still_heights two_listings) (py ''u'') (- 1) True
     = (Inr [car], two_scroll_session)"
proof -
  from scrape_cap_nonpositive [OF still_run, of 1] show ?thesis
    using still_run by simp
qed

text \<open>
  Claim C4. When the navigation raises, scrape raises the same exception after one call of
  goto (with the 30 second bound) and nothing after it but the exit of the block (the
  browser is not closed by scrape on this path); and
  whichever of the waits (15 seconds after the navigation, 5 seconds in each iteration)
  time out, scrape makes the same calls and returns the same result as when none does.
\<close>

theorem navigation_fatal_waits_tolerated:
  "(start b = None \<and> launch b headless = None \<and> new_context b = None \<and> new_page b = None \<and>
    goto b url = Some e \<longrightarrow>
      scrape b url N headless =
        (Inl e, \<lparr>calls = [Launch, NewContext, NewPage, Goto 30000, Stop],
                 browser_open = True, released = 0\<rparr>)) \<and>
   scrape (b\<lparr>wait_idle := (if t0 then Some TimeoutError else None),
              wait_idle_loop := (\<lambda>i. if t i then Some TimeoutError else None)\<rparr>) url N headless
     = scrape (b\<lparr>wait_idle := None, wait_idle_loop := (\<lambda>i. None)\<rparr>) url N headless"
proof (intro conjI impI)
  assume "start b = None \<and> launch b headless = None \<and> new_context b = None \<and>
    new_page b = None \<and> goto b url = Some e"
  then show "scrape b url N headless =
        (Inl e, \<lparr>calls = [Launch, NewContext, NewPage, Goto 30000, Stop],
                 browser_open = True, released = 0\<rparr>)"
    by (simp add: scrape_def with_sync_playwright_def with_body_def log_def session0_def
          playwright_exit_def)
next
  have "with_sync_playwright (b\<lparr>wait_idle := (if t0 then Some TimeoutError else None),
              wait_idle_loop := (\<lambda>i. if t i then Some TimeoutError else None)\<rparr>) url headless
     = with_sync_playwright (b\<lparr>wait_idle := None, wait_idle_loop := (\<lambda>i. None)\<rparr>) url headless"
    unfolding with_sync_playwright_def with_body_timeouts by simp
  then show "scrape (b\<lparr>wait_idle := (if t0 then Some TimeoutError else None),
              wait_idle_loop := (\<lambda>i. if t i then Some TimeoutError else None)\<rparr>) url N headless
     = scrape (b\<lparr>wait_idle := None, wait_idle_loop := (\<lambda>i. None)\<rparr>) url N headless"
    unfolding scrape_def by (rule arg_cong)
qed

theorem navigation_fatal_waits_tolerated_witness:
  "start (scripted_browser (Some Error) still_heights two_listings) = None \<and>
   goto (scripted_browser (Some Error) still_heights two_listings) (py ''u'') = Some Error \<and>
   scrape (scripted_browser (Some Error) still_heights two_listings) (py ''u'') 200 True
     = (Inl Error, no_page_session) \<and>
   wait_idle (scripted_browser None still_heights two_listings) = Some TimeoutError \<and>
   wait_idle_loop (scripted_browser None still_heights two_listings) 0 = Some TimeoutError \<and>
   scrape (scripted_browser None still_heights two_listings) (py ''u'') 200 True
     = (Inr [car, mat], two_scroll_session)"
proof -
  have r: "scrape (scripted_browser None still_heights two_listings) (py ''u'') 200 True
     = (Inr [car, mat], two_scroll_session)"
    using still_run by (simp add: scrape_def)
  from navigation_fatal_waits_tolerated
         [of "scripted_browser (Some Error) still_heights two_listings" True "py ''u''" Error 200]
  show ?thesis
    using r by (simp add: scripted_browser_def no_page_session_def)
qed

lemma snd_with_sync_playwright:
  "start b = None \<Longrightarrow>
     snd (with_sync_playwright b url headless)
       = playwright_exit (snd (with_body b url headless session0))"
  by (simp add: with_sync_playwright_def split: prod.splits)

lemma climbing_stabilises: "stabilises_after (scripted_browser None climbing_heights as) 9"
  by (auto simp: stabilises_after_def iteration_ok_def height_before_def scripted_browser_def
        climbing_heights_def ignore_timeout_def)

lemma still_stabilises: "stabilises_after (scripted_browser None still_heights as) 1"
  by (auto simp: stabilises_after_def iteration_ok_def height_before_def scripted_browser_def
        still_heights_def ignore_timeout_def)

text \<open>
  As stated, C5 fails at k = 9: the heights 1, ..., 9, 9 stabilise after nine iterations,
  the loop measures ten times, and all ten iterations have run.
\<close>

theorem scroll_loop_tenth_iteration_counterexample:
  "stabilises_after (scripted_browser None climbing_heights []) 9 \<and>
   measurements (snd (scrape (scripted_browser None climbing_heights []) (py ''u'') 200 True)) = 10 \<and>
   scrolls (snd (scrape (scripted_browser None climbing_heights []) (py ''u'') 200 True)) = 10"
  using climbing_stabilises [of "[]"]
  by (simp add: run_defs extract_listings_from_page_def scrolls_def measurements_def)

text \<open>
  Claim C5, amended. The loop scrolls and measures at most 10 times. When the measured
  height stabilises after k < 10 iterations (the height before the first iteration taken
  as 0), the loop measures exactly k + 1 times and stops there; it has then run fewer than
  10 iterations when k < 9, and all 10 when k = 9.
\<close>

theorem scroll_loop_convergence:
  "scrolls (snd (scrape b url N headless)) \<le> 10 \<and>
   measurements (snd (scrape b url N headless)) \<le> 10 \<and>
   (reaches_loop b url headless \<and> stabilises_after b k \<and> k < 10 \<longrightarrow>
      measurements (snd (scrape b url N headless)) = k + 1 \<and>
      scrolls (snd (scrape b url N headless)) = k + 1 \<and>
      (k < 9 \<longrightarrow> scrolls (snd (scrape b url N headless)) < 10))"
proof -
  have bounds: "scrolls (snd (scrape b url N headless)) \<le> 10 \<and>
      measurements (snd (scrape b url N headless)) \<le> 10"
  proof (cases "start b")
    case (Some e)
    then show ?thesis
      by (simp add: snd_scrape with_sync_playwright_def scrolls_simps measurements_simps)
  next
    case None
    obtain r s where rs: "with_body b url headless session0 = (r, s)"
      by (cases "with_body b url headless session0") auto
    from with_body_outcome [OF rs] have "scrolls s \<le> 10 \<and> measurements s \<le> 10"
      by blast
    with None rs show ?thesis
      by (simp add: snd_scrape snd_with_sync_playwright scrolls_simps measurements_simps)
  qed
  have conv: "reaches_loop b url headless \<and> stabilises_after b k \<and> k < 10 \<longrightarrow>
      measurements (snd (scrape b url N headless)) = k + 1 \<and>
      scrolls (snd (scrape b url N headless)) = k + 1 \<and>
      (k < 9 \<longrightarrow> scrolls (snd (scrape b url N headless)) < 10)"
  proof
    assume a: "reaches_loop b url headless \<and> stabilises_after b k \<and> k < 10"
    then have st: "start b = None" and l: "launch b headless = None"
      and nc: "new_context b = None" and np: "new_page b = None" and g: "goto b url = None"
      and w: "ignore_timeout (wait_idle b) = None"
      by (simp_all add: reaches_loop_def)
    from a have sa: "stabilises_after b k" and k: "k < 10" by simp_all
    from with_body_stabilised [OF l nc np g w sa k]
    have "scrolls (snd (scrape b url N headless)) = Suc k"
      and "measurements (snd (scrape b url N headless)) = Suc k"
      using st by (simp_all add: snd_scrape snd_with_sync_playwright scrolls_simps measurements_simps)
    then show "measurements (snd (scrape b url N headless)) = k + 1 \<and>
      scrolls (snd (scrape b url N headless)) = k + 1 \<and>
      (k < 9 \<longrightarrow> scrolls (snd (scrape b url N headless)) < 10)"
      by simp
  qed
  from bounds conv show ?thesis by blast
qed

theorem scroll_loop_convergence_witness:
  "reaches_loop (scripted_browser None still_heights two_listings) (py ''u'') True \<and>
   stabilises_after (scripted_browser None still_heights two_listings) 1 \<and> (1 :: nat) < 10 \<and>
   measurements (snd (scrape (scripted_browser None still_heights two_listings) (py ''u'') 200 True)) = 2 \<and>
   scrolls (snd (scrape (scripted_browser None still_heights two_listings) (py ''u'') 200 True)) = 2 \<and>
   calls (snd (scrape (scripted_browser None still_heights two_listings) (py ''u'') 200 True))
     = calls two_scroll_session"
proof -
  have r: "reaches_loop (scripted_browser None still_heights two_listings) (py ''u'') True"
    by (simp add: reaches_loop_def scripted_browser_def ignore_timeout_def)
  have c: "snd (scrape (scripted_browser None still_heights two_listings) (py ''u'') 200 True)
      = two_scroll_session"
    using still_run by (simp add: snd_scrape)
  from scroll_loop_convergence
         [of "scripted_browser None still_heights two_listings" "py ''u''" 200 True 1]
  show ?thesis
    using r still_stabilises [of two_listings] c by simp
qed






section \<open>The output file\<close>




subsection \<open>The CSV text read back\<close>










subsection \<open>The JSON text read back\<close>























subsection \<open>What save\_results leaves\<close>












end
